theory Spec2Isabelle
  imports Main "HOL-Library.Monad_Syntax"
begin

section \<open>The binary search tree of btree.js\<close>

text \<open>
  The tree of \<^verbatim>\<open>src/btree.js\<close> is a graph of mutable JavaScript objects
  \<^verbatim>\<open>{value, left, right, ids}\<close>. The operations assign to the fields of objects
  that are reachable through several variables at once (\<^verbatim>\<open>current\<close>,
  \<^verbatim>\<open>replacement\<close>, \<^verbatim>\<open>replacementParent\<close>), so the objects live in an
  explicit store: a list of nodes, in which an object reference is an index. A new object
  is appended to the store, and no object is ever taken out of it: an object that is no
  longer linked stays where it is, unreachable.

  \<^item> \<^verbatim>\<open>null\<close> is \<open>None\<close>, a reference to an object is \<open>Some a\<close>.
  \<^item> The keys are compared with JavaScript's \<^verbatim>\<open><\<close> and \<^verbatim>\<open>>\<close>. The comparison
    \<^verbatim>\<open><\<close> is the parameter \<open>lt\<close> of every operation, and \<^verbatim>\<open>a > b\<close> is
    \<open>lt b a\<close>, which is how the language defines it for primitive values.
  \<^item> An id is used in one way only: as a property key of an \<^verbatim>\<open>ids\<close> object. The id
    of the model is that key, a string (the number 1 is the key \<^verbatim>\<open>"1"\<close>); symbols
    are not in the model. \<^verbatim>\<open>ids\<close> is the set of its own property keys, all of which
    hold \<^verbatim>\<open>true\<close>: \<^verbatim>\<open>delete ids[id]\<close> removes the key, and
    \<^verbatim>\<open>Object.keys(ids).length\<close> is zero exactly for the empty set. The assignment
    \<^verbatim>\<open>ids[id] = true\<close> is \<open>assign_id\<close> below.
  \<^item> The callbacks only hand over the result; an operation returns what it passes to
    its callback.
  \<^item> A loop that does not end has no result: the loops are partial functions into
    \<open>option\<close>, and \<open>None\<close> is "does not return".
\<close>

type_synonym addr = nat

type_synonym propkey = string

record 'k node =
  nvalue :: 'k
  left :: "addr option"
  right :: "addr option"
  ids :: "propkey set"

type_synonym 'k store = "'k node list"

record 'k bstree =
  root :: "addr option"
  heap :: "'k store"

text \<open>The constructor: \<^verbatim>\<open>this._root = null\<close>, and no object exists yet.\<close>

definition BinarySearchTree :: "'k bstree" where
  "BinarySearchTree = \<lparr>root = None, heap = []\<rparr>"

datatype error = TypeError

text \<open>
  A variable that is declared and never assigned holds \<^verbatim>\<open>undefined\<close>, which is not
  \<^verbatim>\<open>null\<close>. Only \<^verbatim>\<open>replacementParent\<close> of \<^verbatim>\<open>remove\<close> is read in that state.
\<close>

datatype jsref = Undefined | Null | Ref addr

subsection \<open>add\<close>

text \<open>
  The assignment \<^verbatim>\<open>ids[id] = true\<close>. An \<^verbatim>\<open>ids\<close> object is made by the literal
  \<^verbatim>\<open>{ }\<close>, so it inherits from \<^verbatim>\<open>Object.prototype\<close>. For every key but one the
  assignment creates the own property (the inherited properties such as
  \<^verbatim>\<open>constructor\<close> are writable data properties, which an assignment shadows). The
  key \<^verbatim>\<open>"__proto__"\<close> is inherited as an accessor: the assignment calls its setter,
  which ignores a value that is neither an object nor null, and no property is created.
\<close>

definition assign_id :: "propkey \<Rightarrow> propkey set \<Rightarrow> propkey set" where
  "assign_id i s = (if i = ''__proto__'' then s else insert i s)"

text \<open>The object literal at the head of \<^verbatim>\<open>add\<close>, with \<^verbatim>\<open>node.ids[id] = true\<close>.\<close>

definition new_node :: "'k \<Rightarrow> propkey \<Rightarrow> 'k node" where
  "new_node v i = \<lparr>nvalue = v, left = None, right = None, ids = assign_id i {}\<rparr>"

text \<open>
  The \<^verbatim>\<open>while (true)\<close> loop of \<^verbatim>\<open>add\<close>, from \<^verbatim>\<open>current\<close>. The new object enters
  the store where the loop links it (at index \<open>length h\<close>); where the loop ends in the
  \<^verbatim>\<open>else\<close> branch the object is never linked, and no trace of it is kept.
\<close>

partial_function (option) add_loop ::
  "('k \<Rightarrow> 'k \<Rightarrow> bool) \<Rightarrow> 'k \<Rightarrow> propkey \<Rightarrow> addr \<Rightarrow> 'k store \<Rightarrow> 'k store option" where
  "add_loop lt v i current h =
     (if lt v (nvalue (h ! current)) then
        (case left (h ! current) of
           None \<Rightarrow> Some ((h @ [new_node v i])[current := (h ! current)\<lparr>left := Some (length h)\<rparr>])
         | Some l \<Rightarrow> add_loop lt v i l h)
      else if lt (nvalue (h ! current)) v then
        (case right (h ! current) of
           None \<Rightarrow> Some ((h @ [new_node v i])[current := (h ! current)\<lparr>right := Some (length h)\<rparr>])
         | Some r \<Rightarrow> add_loop lt v i r h)
      else Some (h[current := (h ! current)\<lparr>ids := assign_id i (ids (h ! current))\<rparr>]))"

definition add :: "('k \<Rightarrow> 'k \<Rightarrow> bool) \<Rightarrow> 'k \<Rightarrow> propkey \<Rightarrow> 'k bstree \<Rightarrow> 'k bstree option" where
  "add lt v i t =
     (case root t of
        None \<Rightarrow> Some \<lparr>root = Some (length (heap t)), heap = heap t @ [new_node v i]\<rparr>
      | Some r \<Rightarrow> map_option (\<lambda>h. t\<lparr>heap := h\<rparr>) (add_loop lt v i r (heap t)))"

subsection \<open>contains and equals\<close>

text \<open>
  The loop \<^verbatim>\<open>while (!found && current)\<close> of \<^verbatim>\<open>contains\<close> and of \<^verbatim>\<open>equals\<close>. It
  leaves with \<^verbatim>\<open>found\<close> true and \<^verbatim>\<open>current\<close> the node found, or with
  \<^verbatim>\<open>found\<close> false and \<^verbatim>\<open>current\<close> null: the result is \<^verbatim>\<open>current\<close>, and
  \<^verbatim>\<open>found\<close> is "the result is not null".
\<close>

partial_function (option) find_loop ::
  "('k \<Rightarrow> 'k \<Rightarrow> bool) \<Rightarrow> 'k \<Rightarrow> addr option \<Rightarrow> 'k store \<Rightarrow> addr option option" where
  "find_loop lt v current h =
     (case current of
        None \<Rightarrow> Some None
      | Some c \<Rightarrow>
          if lt v (nvalue (h ! c)) then find_loop lt v (left (h ! c)) h
          else if lt (nvalue (h ! c)) v then find_loop lt v (right (h ! c)) h
          else Some (Some c))"

definition contains :: "('k \<Rightarrow> 'k \<Rightarrow> bool) \<Rightarrow> 'k \<Rightarrow> 'k bstree \<Rightarrow> bool option" where
  "contains lt v t = map_option (\<lambda>current. current \<noteq> None) (find_loop lt v (root t) (heap t))"

definition equals :: "('k \<Rightarrow> 'k \<Rightarrow> bool) \<Rightarrow> 'k \<Rightarrow> 'k bstree \<Rightarrow> propkey set option" where
  "equals lt v t =
     map_option (\<lambda>current. case current of None \<Rightarrow> {} | Some c \<Rightarrow> ids (heap t ! c))
       (find_loop lt v (root t) (heap t))"

subsection \<open>traverse, toArray and size\<close>

text \<open>
  \<^verbatim>\<open>inOrder\<close>, with the \<^verbatim>\<open>process\<close> of \<^verbatim>\<open>toArray\<close>: the result is the list of the
  pairs pushed, in the order of the pushes. A recursion that does not end (in
  JavaScript it ends the call with an exhausted stack) has no result.
\<close>

partial_function (option) inOrder ::
  "'k store \<Rightarrow> addr option \<Rightarrow> ('k \<times> propkey set) list option" where
  "inOrder h node =
     (case node of
        None \<Rightarrow> Some []
      | Some a \<Rightarrow>
          do {
            ls \<leftarrow> (case left (h ! a) of None \<Rightarrow> Some [] | Some l \<Rightarrow> inOrder h (Some l));
            rs \<leftarrow> (case right (h ! a) of None \<Rightarrow> Some [] | Some r \<Rightarrow> inOrder h (Some r));
            Some (ls @ [(nvalue (h ! a), ids (h ! a))] @ rs)
          })"

definition toArray :: "'k bstree \<Rightarrow> ('k \<times> propkey set) list option" where
  "toArray t = inOrder (heap t) (root t)"

definition size_tree :: "'k bstree \<Rightarrow> nat option" where
  "size_tree t = map_option length (toArray t)"

subsection \<open>remove\<close>

text \<open>
  The first loop of \<^verbatim>\<open>remove\<close>: the loop of \<^verbatim>\<open>contains\<close>, which also keeps the
  node it came from in \<^verbatim>\<open>parent\<close>. The result is \<^verbatim>\<open>(parent, current)\<close>.
\<close>

partial_function (option) remove_search ::
  "('k \<Rightarrow> 'k \<Rightarrow> bool) \<Rightarrow> 'k \<Rightarrow> addr option \<Rightarrow> addr option \<Rightarrow> 'k store
     \<Rightarrow> (addr option \<times> addr option) option" where
  "remove_search lt v parent current h =
     (case current of
        None \<Rightarrow> Some (parent, None)
      | Some c \<Rightarrow>
          if lt v (nvalue (h ! c)) then remove_search lt v (Some c) (left (h ! c)) h
          else if lt (nvalue (h ! c)) v then remove_search lt v (Some c) (right (h ! c)) h
          else Some (parent, Some c))"

text \<open>Assignments \<^verbatim>\<open>a.left = p\<close> and \<^verbatim>\<open>a.right = p\<close>.\<close>

definition set_left :: "addr \<Rightarrow> addr option \<Rightarrow> 'k store \<Rightarrow> 'k store" where
  "set_left a p h = h[a := (h ! a)\<lparr>left := p\<rparr>]"

definition set_right :: "addr \<Rightarrow> addr option \<Rightarrow> 'k store \<Rightarrow> 'k store" where
  "set_right a p h = h[a := (h ! a)\<lparr>right := p\<rparr>]"

definition childCount :: "'k node \<Rightarrow> nat" where
  "childCount n = (if left n \<noteq> None then 1 else 0) + (if right n \<noteq> None then 1 else 0)"

text \<open>
  The loop \<^verbatim>\<open>while (replacement.right !== null)\<close>, which both two-children cases run
  (lines 264-267 and 328-331). The result is \<^verbatim>\<open>(replacementParent, replacement)\<close>.
\<close>

partial_function (option) rightmost ::
  "jsref \<Rightarrow> addr \<Rightarrow> 'k store \<Rightarrow> (jsref \<times> addr) option" where
  "rightmost replacementParent replacement h =
     (case right (h ! replacement) of
        None \<Rightarrow> Some (replacementParent, replacement)
      | Some r \<Rightarrow> rightmost (Ref replacement) r h)"

text \<open>
  The three assignments that both two-children cases make (lines 273-277 and 333-337),
  one after the other, each reading the store the one before it has written:
  \<^verbatim>\<open>replacementParent.right = replacement.left;
  replacement.right = current.right;
  replacement.left = current.left;\<close>
  Assigning to a property of \<^verbatim>\<open>undefined\<close> or \<^verbatim>\<open>null\<close> throws a TypeError.
\<close>

definition rehome :: "jsref \<Rightarrow> addr \<Rightarrow> addr \<Rightarrow> 'k store \<Rightarrow> error + 'k store" where
  "rehome replacementParent replacement current h =
     (case replacementParent of
        Ref rp \<Rightarrow>
          (let h1 = set_right rp (left (h ! replacement)) h;
               h2 = set_right replacement (right (h1 ! current)) h1;
               h3 = set_left replacement (left (h2 ! current)) h2
           in Inr h3)
      | _ \<Rightarrow> Inl TypeError)"

text \<open>
  The branch \<^verbatim>\<open>current === this._root\<close> (lines 244-289); \<^verbatim>\<open>this._root\<close> is
  \<^verbatim>\<open>current\<close> there. In case 2 \<^verbatim>\<open>replacementParent\<close> has not been assigned when
  the loop starts.
\<close>

definition remove_root :: "addr \<Rightarrow> 'k bstree \<Rightarrow> (error + 'k bstree) option" where
  "remove_root current t =
     (let h = heap t; n = childCount (h ! current) in
      if n = 0 then Some (Inr (t\<lparr>root := None\<rparr>))
      else if n = 1 then
        Some (Inr (t\<lparr>root := (if right (h ! current) = None then left (h ! current)
                               else right (h ! current))\<rparr>))
      else if n = 2 then
        (case left (h ! current) of
           None \<Rightarrow> Some (Inl TypeError)
         | Some l \<Rightarrow>
             do {
               (replacementParent, replacement) \<leftarrow> rightmost Undefined l h;
               if replacementParent \<noteq> Null then
                 (case rehome replacementParent replacement current h of
                    Inl e \<Rightarrow> Some (Inl e)
                  | Inr h' \<Rightarrow> Some (Inr \<lparr>root = Some replacement, heap = h'\<rparr>))
               else
                 Some (Inr \<lparr>root = Some replacement,
                            heap = set_right replacement (right (h ! current)) h\<rparr>)
             })
      else Some (Inr t))"

text \<open>
  \<^verbatim>\<open>if (current.value < parent.value) parent.left = x; else parent.right = x;\<close>
  which each of the three non-root cases ends with. Reading \<^verbatim>\<open>parent.value\<close> of
  \<^verbatim>\<open>null\<close> throws a TypeError.
\<close>

definition link_parent ::
  "('k \<Rightarrow> 'k \<Rightarrow> bool) \<Rightarrow> addr \<Rightarrow> addr option \<Rightarrow> addr option \<Rightarrow> 'k store
     \<Rightarrow> error + 'k store" where
  "link_parent lt current parent x h =
     (case parent of
        None \<Rightarrow> Inl TypeError
      | Some p \<Rightarrow>
          Inr (if lt (nvalue (h ! current)) (nvalue (h ! p)) then set_left p x h
               else set_right p x h))"

text \<open>The branch of the non-root values (lines 292-351).\<close>

definition remove_inner ::
  "('k \<Rightarrow> 'k \<Rightarrow> bool) \<Rightarrow> addr option \<Rightarrow> addr \<Rightarrow> 'k bstree
     \<Rightarrow> (error + 'k bstree) option" where
  "remove_inner lt parent current t =
     (let h = heap t; n = childCount (h ! current) in
      if n = 0 then
        Some (map_sum id (\<lambda>h'. t\<lparr>heap := h'\<rparr>) (link_parent lt current parent None h))
      else if n = 1 then
        Some (map_sum id (\<lambda>h'. t\<lparr>heap := h'\<rparr>)
          (link_parent lt current parent
             (if left (h ! current) = None then right (h ! current) else left (h ! current)) h))
      else if n = 2 then
        (case left (h ! current) of
           None \<Rightarrow> Some (Inl TypeError)
         | Some l \<Rightarrow>
             do {
               (replacementParent, replacement) \<leftarrow> rightmost (Ref current) l h;
               (case rehome replacementParent replacement current h of
                  Inl e \<Rightarrow> Some (Inl e)
                | Inr h' \<Rightarrow>
                    Some (map_sum id (\<lambda>h''. t\<lparr>heap := h''\<rparr>)
                      (link_parent lt current parent (Some replacement) h')))
             })
      else Some (Inr t))"

text \<open>
  \<^verbatim>\<open>remove\<close>: the search, \<^verbatim>\<open>delete current.ids[id]\<close>, the early return while ids
  are left, and the excision of the node.
\<close>

definition remove ::
  "('k \<Rightarrow> 'k \<Rightarrow> bool) \<Rightarrow> 'k \<Rightarrow> propkey \<Rightarrow> 'k bstree \<Rightarrow> (error + 'k bstree) option" where
  "remove lt v i t =
     do {
       (parent, current) \<leftarrow> remove_search lt v None (root t) (heap t);
       (case current of
          None \<Rightarrow> Some (Inr t)
        | Some c \<Rightarrow>
            (let h = (heap t)[c := (heap t ! c)\<lparr>ids := ids (heap t ! c) - {i}\<rparr>];
                 t1 = t\<lparr>heap := h\<rparr>
             in if ids (h ! c) \<noteq> {} then Some (Inr t1)
                else if Some c = root t then remove_root c t1
                else remove_inner lt parent c t1))
     }"

subsection \<open>Sequences of calls\<close>

text \<open>A sequence of \<^verbatim>\<open>add(value, id)\<close> calls, one after the other on the same tree.\<close>

fun adds ::
  "('k \<Rightarrow> 'k \<Rightarrow> bool) \<Rightarrow> ('k \<times> propkey) list \<Rightarrow> 'k bstree \<Rightarrow> 'k bstree option" where
  "adds lt [] t = Some t"
| "adds lt ((v, i) # ops) t = Option.bind (add lt v i t) (adds lt ops)"

subsection \<open>Keys that do not compare\<close>

text \<open>
  JavaScript's \<^verbatim>\<open><\<close> on numbers, with the integers standing for the numbers that
  compare: every comparison with \<^verbatim>\<open>NaN\<close> is false.
\<close>

datatype jsnum = Num int | NaN

fun js_lt :: "jsnum \<Rightarrow> jsnum \<Rightarrow> bool" where
  "js_lt (Num a) (Num b) = (a < b)"
| "js_lt _ _ = False"

section \<open>Trees as values\<close>

text \<open>
  What the specification calls the tree is the part of the store that is reachable from the root.
  A \<open>shape\<close> is such a tree written as a value: each node with the index of its object,
  its key and its id set. \<open>rep h p sh\<close> says that the store \<open>h\<close> holds the tree \<open>sh\<close>
  at the reference \<open>p\<close>: every node of \<open>sh\<close> is an object of the store, with that key,
  those ids and those children. A store read through \<open>rep\<close> is only read at indices
  below its length.
\<close>

datatype 'k shape = Tip | Fork "'k shape" addr 'k "propkey set" "'k shape"

fun rep :: "'k store \<Rightarrow> addr option \<Rightarrow> 'k shape \<Rightarrow> bool" where
  "rep h None Tip = True"
| "rep h (Some a) (Fork l b k s r) =
     (a = b \<and> a < length h \<and> nvalue (h ! a) = k \<and> ids (h ! a) = s
      \<and> rep h (left (h ! a)) l \<and> rep h (right (h ! a)) r)"
| "rep h None (Fork l b k s r) = False"
| "rep h (Some a) Tip = False"

text \<open>The objects of a tree, its \<^verbatim>\<open>(value, ids)\<close> pairs and its keys, all in order.\<close>

fun addrs :: "'k shape \<Rightarrow> addr list" where
  "addrs Tip = []"
| "addrs (Fork l a k s r) = addrs l @ a # addrs r"

fun entries :: "'k shape \<Rightarrow> ('k \<times> propkey set) list" where
  "entries Tip = []"
| "entries (Fork l a k s r) = entries l @ (k, s) # entries r"

definition keys_of :: "'k shape \<Rightarrow> 'k list" where
  "keys_of sh = map fst (entries sh)"

text \<open>
  The path of the comparisons in a tree, for keys in a linear order: the node at which the
  search for \<open>v\<close> stops, its id set, and the node the search came from.
\<close>

fun afind :: "'k::linorder \<Rightarrow> 'k shape \<Rightarrow> addr option" where
  "afind v Tip = None"
| "afind v (Fork l a k s r) =
     (if v < k then afind v l else if k < v then afind v r else Some a)"

fun aget :: "'k::linorder \<Rightarrow> 'k shape \<Rightarrow> propkey set" where
  "aget v Tip = {}"
| "aget v (Fork l a k s r) =
     (if v < k then aget v l else if k < v then aget v r else s)"

fun aparent :: "'k::linorder \<Rightarrow> addr option \<Rightarrow> 'k shape \<Rightarrow> addr option" where
  "aparent v par Tip = par"
| "aparent v par (Fork l a k s r) =
     (if v < k then aparent v (Some a) l else if k < v then aparent v (Some a) r else par)"

text \<open>The tree after \<^verbatim>\<open>add(v, i)\<close>, where a new object gets the index \<open>n\<close>.\<close>

fun ains :: "'k::linorder \<Rightarrow> propkey \<Rightarrow> addr \<Rightarrow> 'k shape \<Rightarrow> 'k shape" where
  "ains v i n Tip = Fork Tip n v (assign_id i {}) Tip"
| "ains v i n (Fork l a k s r) =
     (if v < k then Fork (ains v i n l) a k s r
      else if k < v then Fork l a k s (ains v i n r)
      else Fork l a k (assign_id i s) r)"

text \<open>
  The trees of the specification's data model. A store is tree-shaped when what the root reaches is
  a tree in which no object occurs twice. A tree is valid when, moreover, its keys ascend
  strictly from left to right (the search-tree order, with no key twice) and no node has
  an empty id set.
\<close>

definition tree_shaped :: "'k bstree \<Rightarrow> bool" where
  "tree_shaped t \<longleftrightarrow> (\<exists>sh. rep (heap t) (root t) sh \<and> distinct (addrs sh))"

definition valid :: "'k::linorder bstree \<Rightarrow> bool" where
  "valid t \<longleftrightarrow>
     (\<exists>sh. rep (heap t) (root t) sh \<and> distinct (addrs sh)
        \<and> sorted_wrt (<) (keys_of sh) \<and> {} \<notin> snd ` set (entries sh))"

text \<open>
  What a sequence of \<^verbatim>\<open>add\<close> calls is expected to leave under a key: the ids that
  were added with that key, of which \<^verbatim>\<open>"__proto__"\<close> is never stored.
\<close>

definition ids_added :: "('k \<times> propkey) list \<Rightarrow> 'k \<Rightarrow> propkey set" where
  "ids_added ops k = set (map snd (filter (\<lambda>(k', i). k' = k \<and> i \<noteq> ''__proto__'') ops))"

text \<open>The tree after \<^verbatim>\<open>add(2, 1); add(1, 4)\<close> on the empty tree, for the examples.\<close>

definition example_tree :: "int bstree" where
  "example_tree = \<lparr>root = Some 0, heap =
     [\<lparr>nvalue = 2, left = Some 1, right = None, ids = {''1''}\<rparr>,
      \<lparr>nvalue = 1, left = None, right = None, ids = {''4''}\<rparr>]\<rparr>"

section \<open>Evaluating the operations\<close>

text \<open>The equations that run the operations on a concrete tree.\<close>

lemmas bst_eval =
  add_def add_loop.simps find_loop.simps inOrder.simps remove_search.simps rightmost.simps
  remove_def remove_root_def remove_inner_def childCount_def rehome_def link_parent_def
  set_left_def set_right_def BinarySearchTree_def new_node_def contains_def equals_def
  toArray_def

text \<open>The assignment and the deletion of ids.\<close>

lemma assign_id_idem [simp]: "assign_id i (assign_id i s) = assign_id i s"
  by (simp add: assign_id_def)

lemma assign_id_delete [simp]: "assign_id i {} - {i} = {}"
  by (simp add: assign_id_def)

lemma assign_id_stored: "i \<noteq> ''__proto__'' \<Longrightarrow> assign_id i s = insert i s"
  by (simp add: assign_id_def)

lemma assign_id_Un: "assign_id i s = s \<union> assign_id i {}"
  by (simp add: assign_id_def)

text \<open>
  A traversal that reaches a node which is its own left child does not return: a result
  for that node would need an earlier result for the same node.
\<close>

lemma self_left_inOrder_aux:
  assumes "inOrder h node = Some zs"
  shows "left (h ! a) = Some a \<longrightarrow> node \<noteq> Some a"
proof (rule inOrder.raw_induct[where P = "\<lambda>h node zs. left (h ! a) = Some a \<longrightarrow> node \<noteq> Some a",
      OF _ assms])
  fix f and h' :: "'a store" and node' zs'
  assume IH: "\<And>h node zs. f h node = Some zs \<Longrightarrow> left (h ! a) = Some a \<longrightarrow> node \<noteq> Some a"
    and body: "(case node' of None \<Rightarrow> Some []
      | Some a \<Rightarrow>
          do {
            ls \<leftarrow> (case left (h' ! a) of None \<Rightarrow> Some [] | Some l \<Rightarrow> f h' (Some l));
            rs \<leftarrow> (case right (h' ! a) of None \<Rightarrow> Some [] | Some r \<Rightarrow> f h' (Some r));
            Some (ls @ [(nvalue (h' ! a), ids (h' ! a))] @ rs)
          }) = Some zs'"
  show "left (h' ! a) = Some a \<longrightarrow> node' \<noteq> Some a"
  proof (intro impI notI)
    assume l: "left (h' ! a) = Some a" and n: "node' = Some a"
    with body obtain ls where "f h' (Some a) = Some ls"
      by (auto simp: bind_eq_Some_conv)
    with IH l show False by blast
  qed
qed

lemma self_left_inOrder: "left (h ! a) = Some a \<Longrightarrow> inOrder h (Some a) = None"
  using self_left_inOrder_aux[of h "Some a" _ a] by (cases "inOrder h (Some a)") auto

section \<open>What the operations compute on a represented tree\<close>

subsection \<open>The representation\<close>

lemma rep_None [simp]: "rep h None sh \<longleftrightarrow> sh = Tip"
  by (cases sh) simp_all

lemma rep_Tip [simp]: "rep h p Tip \<longleftrightarrow> p = None"
  by (cases p) simp_all

lemma rep_bound: "rep h p sh \<Longrightarrow> a \<in> set (addrs sh) \<Longrightarrow> a < length h"
proof (induction sh arbitrary: p)
  case Tip
  then show ?case by simp
next
  case (Fork l b k s r)
  then obtain c where p: "p = Some c" by (cases p) auto
  with Fork show ?case by auto
qed

lemma rep_cong:
  "rep h p sh \<Longrightarrow> length h \<le> length h' \<Longrightarrow> (\<And>a. a \<in> set (addrs sh) \<Longrightarrow> h' ! a = h ! a)
     \<Longrightarrow> rep h' p sh"
proof (induction sh arbitrary: p)
  case Tip
  then show ?case by simp
next
  case (Fork l b k s r)
  then obtain c where p: "p = Some c" by (cases p) auto
  from Fork.prems(1) p have c: "c = b" "b < length h" "nvalue (h ! b) = k" "ids (h ! b) = s"
    and l: "rep h (left (h ! b)) l" and r: "rep h (right (h ! b)) r" by auto
  have eq: "h' ! b = h ! b" using Fork.prems(3) by simp
  have "rep h' (left (h ! b)) l" using l Fork.prems(2,3) by (intro Fork.IH(1)) auto
  moreover have "rep h' (right (h ! b)) r" using r Fork.prems(2,3) by (intro Fork.IH(2)) auto
  ultimately show ?case using p c eq Fork.prems(2) by simp
qed

lemma rep_update: "rep h p sh \<Longrightarrow> b \<notin> set (addrs sh) \<Longrightarrow> rep (h[b := n]) p sh"
proof (erule rep_cong)
  fix a assume "b \<notin> set (addrs sh)" "a \<in> set (addrs sh)"
  then have "b \<noteq> a" by blast
  then show "h[b := n] ! a = h ! a" by simp
qed simp

lemma keys_of_simps [simp]:
  "keys_of Tip = []"
  "keys_of (Fork l a k s r) = keys_of l @ k # keys_of r"
  by (simp_all add: keys_of_def)

subsection \<open>The searches and the traversal\<close>

lemma inOrder_rep: "rep h p sh \<Longrightarrow> inOrder h p = Some (entries sh)"
proof (induction sh arbitrary: p)
  case Tip
  then show ?case by (simp add: inOrder.simps)
next
  case (Fork l b k s r)
  then obtain c where p: "p = Some c" by (cases p) auto
  from Fork.prems p have c: "c = b" "nvalue (h ! b) = k" "ids (h ! b) = s"
    and l: "rep h (left (h ! b)) l" and r: "rep h (right (h ! b)) r" by auto
  have L: "(case left (h ! b) of None \<Rightarrow> Some [] | Some x \<Rightarrow> inOrder h (Some x)) = Some (entries l)"
    using Fork.IH(1)[OF l] l by (cases "left (h ! b)") auto
  have R: "(case right (h ! b) of None \<Rightarrow> Some [] | Some x \<Rightarrow> inOrder h (Some x)) = Some (entries r)"
    using Fork.IH(2)[OF r] r by (cases "right (h ! b)") auto
  show ?case
    unfolding p c(1) by (subst inOrder.simps) (simp add: L R c)
qed

lemma find_loop_rep: "rep h p sh \<Longrightarrow> find_loop (<) v p h = Some (afind v sh)"
proof (induction sh arbitrary: p)
  case Tip
  then show ?case by (simp add: find_loop.simps)
next
  case (Fork l b k s r)
  then obtain c where p: "p = Some c" by (cases p) auto
  from Fork.prems p have c: "c = b" "nvalue (h ! b) = k"
    and l: "rep h (left (h ! b)) l" and r: "rep h (right (h ! b)) r" by auto
  show ?case
    unfolding p c(1) by (subst find_loop.simps) (simp add: c Fork.IH(1)[OF l] Fork.IH(2)[OF r])
qed

lemma remove_search_rep:
  "rep h p sh \<Longrightarrow> remove_search (<) v par p h = Some (aparent v par sh, afind v sh)"
proof (induction sh arbitrary: p par)
  case Tip
  then show ?case by (simp add: remove_search.simps)
next
  case (Fork l b k s r)
  then obtain c where p: "p = Some c" by (cases p) auto
  from Fork.prems p have c: "c = b" "nvalue (h ! b) = k"
    and l: "rep h (left (h ! b)) l" and r: "rep h (right (h ! b)) r" by auto
  show ?case
    unfolding p c(1)
    by (subst remove_search.simps) (simp add: c Fork.IH(1)[OF l] Fork.IH(2)[OF r])
qed

lemma afind_aget: "rep h p sh \<Longrightarrow> afind v sh = Some a \<Longrightarrow> ids (h ! a) = aget v sh"
proof (induction sh arbitrary: p)
  case Tip
  then show ?case by simp
next
  case (Fork l b k s r)
  then obtain c where p: "p = Some c" by (cases p) auto
  with Fork show ?case by (auto split: if_splits)
qed

lemma afind_None_aget: "afind v sh = None \<Longrightarrow> aget v sh = {}"
  by (induction sh) (auto split: if_splits)

lemma afind_addr: "afind v sh = Some a \<Longrightarrow> a \<in> set (addrs sh)"
  by (induction sh) (auto split: if_splits)

lemma aget_entries: "afind v sh = Some a \<Longrightarrow> aget v sh \<in> snd ` set (entries sh)"
  by (induction sh) (auto split: if_splits)

lemma afind_sorted:
  "sorted_wrt (<) (keys_of sh) \<Longrightarrow> v \<in> set (keys_of sh) \<Longrightarrow> afind v sh \<noteq> None"
  by (induction sh) (auto simp: sorted_wrt_append)

lemma contains_rep: "rep (heap t) (root t) sh \<Longrightarrow> contains (<) v t = Some (afind v sh \<noteq> None)"
  by (simp add: contains_def find_loop_rep)

lemma equals_rep: "rep (heap t) (root t) sh \<Longrightarrow> equals (<) v t = Some (aget v sh)"
  by (auto simp: equals_def find_loop_rep afind_aget afind_None_aget split: option.splits)

lemma toArray_rep: "rep (heap t) (root t) sh \<Longrightarrow> toArray t = Some (entries sh)"
  by (simp add: toArray_def inOrder_rep)

text \<open>
  On a valid tree \<^verbatim>\<open>contains\<close> and \<^verbatim>\<open>equals\<close> agree: both return, and the key is
  found exactly when its id set is not empty.
\<close>

lemma contains_iff_equals_valid:
  assumes "valid t"
  shows "\<exists>b S. contains (<) v t = Some b \<and> equals (<) v t = Some S \<and> (b \<longleftrightarrow> S \<noteq> {})"
proof -
  from assms obtain sh where sh: "rep (heap t) (root t) sh"
    and ne: "{} \<notin> snd ` set (entries sh)"
    unfolding valid_def by blast
  have "afind v sh \<noteq> None \<longleftrightarrow> aget v sh \<noteq> {}"
  proof (cases "afind v sh")
    case None
    then show ?thesis by (simp add: afind_None_aget)
  next
    case (Some a)
    from aget_entries[OF this] ne have "aget v sh \<noteq> {}" by metis
    with Some show ?thesis by simp
  qed
  with contains_rep[OF sh, of v] equals_rep[OF sh, of v] show ?thesis by simp
qed

subsection \<open>add\<close>

lemma nth_link: "a < length h \<Longrightarrow> a \<noteq> b \<Longrightarrow> ((h @ xs)[b := n]) ! a = h ! a"
  by (simp add: nth_append)

lemma add_loop_rep:
  assumes "rep h (Some c) sh" and "distinct (addrs sh)"
  shows "\<exists>h'. add_loop (<) v i c h = Some h'
           \<and> rep h' (Some c) (ains v i (length h) sh)
           \<and> length h' = (if afind v sh = None then Suc (length h) else length h)
           \<and> (\<forall>a < length h. a \<notin> set (addrs sh) \<longrightarrow> h' ! a = h ! a)"
  using assms
proof (induction sh arbitrary: c)
  case Tip
  then show ?case by simp
next
  case (Fork l b k s r)
  from Fork.prems have c: "c = b" and b: "b < length h" and kv: "nvalue (h ! b) = k"
    and s: "ids (h ! b) = s"
    and l: "rep h (left (h ! b)) l" and r: "rep h (right (h ! b)) r"
    and dl: "distinct (addrs l)" and dr: "distinct (addrs r)"
    and bl: "b \<notin> set (addrs l)" and br: "b \<notin> set (addrs r)"
    and lr: "set (addrs l) \<inter> set (addrs r) = {}"
    by auto
  have ll: "\<And>a. a \<in> set (addrs l) \<Longrightarrow> a < length h" using rep_bound[OF l] .
  have rl: "\<And>a. a \<in> set (addrs r) \<Longrightarrow> a < length h" using rep_bound[OF r] .
  let ?n = "length h"
  consider (lt) "v < k" | (gt) "\<not> v < k" "k < v" | (eq) "\<not> v < k" "\<not> k < v" by blast
  then show ?case
  proof cases
    case lt
    show ?thesis
    proof (cases "left (h ! b)")
      case None
      with l have lT: "l = Tip" by simp
      let ?h' = "(h @ [new_node v i])[b := (h ! b)\<lparr>left := Some ?n\<rparr>]"
      have run: "add_loop (<) v i b h = Some ?h'"
        by (subst add_loop.simps) (simp add: kv lt None)
      have hb: "?h' ! b = (h ! b)\<lparr>left := Some ?n\<rparr>" using b by simp
      have hn: "?h' ! ?n = new_node v i" using b by simp
      have "rep ?h' (right (h ! b)) r"
      proof (rule rep_cong[OF r])
        fix a assume "a \<in> set (addrs r)"
        then have "a < length h" "a \<noteq> b" using br rl by auto
        then show "?h' ! a = h ! a" by (rule nth_link)
      qed simp
      then have "rep ?h' (Some b) (ains v i ?n (Fork l b k s r))"
        using lt lT b hb hn kv s by (simp add: new_node_def)
      moreover have "\<forall>a < ?n. a \<notin> set (addrs (Fork l b k s r)) \<longrightarrow> ?h' ! a = h ! a"
        by (auto simp: nth_append)
      moreover have "length ?h' = (if afind v (Fork l b k s r) = None then Suc ?n else ?n)"
        using lt lT by simp
      ultimately show ?thesis unfolding c using run by blast
    next
      case (Some la)
      with l have l': "rep h (Some la) l" by simp
      from Fork.IH(1)[OF l' dl] obtain h' where run': "add_loop (<) v i la h = Some h'"
        and rep': "rep h' (Some la) (ains v i ?n l)"
        and len': "length h' = (if afind v l = None then Suc ?n else ?n)"
        and frame': "\<forall>a < ?n. a \<notin> set (addrs l) \<longrightarrow> h' ! a = h ! a" by blast
      have run: "add_loop (<) v i b h = Some h'"
        by (subst add_loop.simps) (simp add: kv lt Some run')
      have hb: "h' ! b = h ! b" using frame' b bl by simp
      have le: "?n \<le> length h'" using len' by simp
      have "rep h' (right (h ! b)) r"
        using r le by (rule rep_cong) (use frame' rl lr in auto)
      then have "rep h' (Some b) (ains v i ?n (Fork l b k s r))"
        using lt b le hb kv s Some rep' by simp
      moreover have "\<forall>a < ?n. a \<notin> set (addrs (Fork l b k s r)) \<longrightarrow> h' ! a = h ! a"
        using frame' by simp
      moreover have "length h' = (if afind v (Fork l b k s r) = None then Suc ?n else ?n)"
        using lt len' by simp
      ultimately show ?thesis unfolding c using run by blast
    qed
  next
    case gt
    show ?thesis
    proof (cases "right (h ! b)")
      case None
      with r have rT: "r = Tip" by simp
      let ?h' = "(h @ [new_node v i])[b := (h ! b)\<lparr>right := Some ?n\<rparr>]"
      have run: "add_loop (<) v i b h = Some ?h'"
        by (subst add_loop.simps) (simp add: kv gt None)
      have hb: "?h' ! b = (h ! b)\<lparr>right := Some ?n\<rparr>" using b by simp
      have hn: "?h' ! ?n = new_node v i" using b by simp
      have "rep ?h' (left (h ! b)) l"
      proof (rule rep_cong[OF l])
        fix a assume "a \<in> set (addrs l)"
        then have "a < length h" "a \<noteq> b" using bl ll by auto
        then show "?h' ! a = h ! a" by (rule nth_link)
      qed simp
      then have "rep ?h' (Some b) (ains v i ?n (Fork l b k s r))"
        using gt rT b hb hn kv s by (simp add: new_node_def)
      moreover have "\<forall>a < ?n. a \<notin> set (addrs (Fork l b k s r)) \<longrightarrow> ?h' ! a = h ! a"
        by (auto simp: nth_append)
      moreover have "length ?h' = (if afind v (Fork l b k s r) = None then Suc ?n else ?n)"
        using gt rT by simp
      ultimately show ?thesis unfolding c using run by blast
    next
      case (Some ra)
      with r have r': "rep h (Some ra) r" by simp
      from Fork.IH(2)[OF r' dr] obtain h' where run': "add_loop (<) v i ra h = Some h'"
        and rep': "rep h' (Some ra) (ains v i ?n r)"
        and len': "length h' = (if afind v r = None then Suc ?n else ?n)"
        and frame': "\<forall>a < ?n. a \<notin> set (addrs r) \<longrightarrow> h' ! a = h ! a" by blast
      have run: "add_loop (<) v i b h = Some h'"
        by (subst add_loop.simps) (simp add: kv gt Some run')
      have hb: "h' ! b = h ! b" using frame' b br by simp
      have le: "?n \<le> length h'" using len' by simp
      have "rep h' (left (h ! b)) l"
        using l le by (rule rep_cong) (use frame' ll lr in auto)
      then have "rep h' (Some b) (ains v i ?n (Fork l b k s r))"
        using gt b le hb kv s Some rep' by simp
      moreover have "\<forall>a < ?n. a \<notin> set (addrs (Fork l b k s r)) \<longrightarrow> h' ! a = h ! a"
        using frame' by simp
      moreover have "length h' = (if afind v (Fork l b k s r) = None then Suc ?n else ?n)"
        using gt len' by simp
      ultimately show ?thesis unfolding c using run by blast
    qed
  next
    case eq
    let ?h' = "h[b := (h ! b)\<lparr>ids := assign_id i (ids (h ! b))\<rparr>]"
    have run: "add_loop (<) v i b h = Some ?h'"
      by (subst add_loop.simps) (simp add: kv eq)
    have "rep ?h' (left (h ! b)) l"
      using l bl by (rule rep_update)
    moreover have "rep ?h' (right (h ! b)) r"
      using r br by (rule rep_update)
    ultimately have "rep ?h' (Some b) (ains v i ?n (Fork l b k s r))"
      using eq b kv s by simp
    moreover have "\<forall>a < ?n. a \<notin> set (addrs (Fork l b k s r)) \<longrightarrow> ?h' ! a = h ! a"
      by auto
    moreover have "length ?h' = (if afind v (Fork l b k s r) = None then Suc ?n else ?n)"
      using eq by simp
    ultimately show ?thesis unfolding c using run by blast
  qed
qed

lemma add_loop_found:
  "rep h (Some c) sh \<Longrightarrow> afind v sh = Some a
     \<Longrightarrow> add_loop (<) v i c h = Some (h[a := (h ! a)\<lparr>ids := assign_id i (ids (h ! a))\<rparr>])"
proof (induction sh arbitrary: c)
  case Tip
  then show ?case by simp
next
  case (Fork l b k s r)
  from Fork.prems(1) have c: "c = b" and kv: "nvalue (h ! b) = k"
    and l: "rep h (left (h ! b)) l" and r: "rep h (right (h ! b)) r" by auto
  consider (lt) "v < k" | (gt) "\<not> v < k" "k < v" | (eq) "\<not> v < k" "\<not> k < v" by blast
  then show ?case
  proof cases
    case lt
    with Fork.prems(2) have f: "afind v l = Some a" by simp
    then obtain la where la: "left (h ! b) = Some la" using l by (cases "left (h ! b)") auto
    from Fork.IH(1)[OF _ f, of la] l la
    have "add_loop (<) v i la h = Some (h[a := (h ! a)\<lparr>ids := assign_id i (ids (h ! a))\<rparr>])" by simp
    then show ?thesis unfolding c by (subst add_loop.simps) (simp add: kv lt la)
  next
    case gt
    with Fork.prems(2) have f: "afind v r = Some a" by simp
    then obtain ra where ra: "right (h ! b) = Some ra" using r by (cases "right (h ! b)") auto
    from Fork.IH(2)[OF _ f, of ra] r ra
    have "add_loop (<) v i ra h = Some (h[a := (h ! a)\<lparr>ids := assign_id i (ids (h ! a))\<rparr>])" by simp
    then show ?thesis unfolding c by (subst add_loop.simps) (simp add: kv gt ra)
  next
    case eq
    with Fork.prems(2) have "a = b" by simp
    then show ?thesis unfolding c by (subst add_loop.simps) (simp add: kv eq)
  qed
qed

lemma add_loop_new:
  "rep h (Some c) sh \<Longrightarrow> afind v sh = None \<Longrightarrow>
   \<exists>p. aparent v par sh = Some p \<and> p \<in> set (addrs sh)
     \<and> (if v < nvalue (h ! p)
         then left (h ! p) = None
           \<and> add_loop (<) v i c h =
               Some ((h @ [new_node v i])[p := (h ! p)\<lparr>left := Some (length h)\<rparr>])
         else right (h ! p) = None
           \<and> add_loop (<) v i c h =
               Some ((h @ [new_node v i])[p := (h ! p)\<lparr>right := Some (length h)\<rparr>]))"
proof (induction sh arbitrary: c par)
  case Tip
  then show ?case by simp
next
  case (Fork l b k s r)
  from Fork.prems(1) have c: "c = b" and kv: "nvalue (h ! b) = k"
    and l: "rep h (left (h ! b)) l" and r: "rep h (right (h ! b)) r" by auto
  from Fork.prems(2) consider (lt) "v < k" | (gt) "\<not> v < k" "k < v"
    by (auto split: if_splits)
  then show ?case
  proof cases
    case lt
    with Fork.prems(2) have f: "afind v l = None" by simp
    show ?thesis
    proof (cases "left (h ! b)")
      case None
      with l have "l = Tip" by simp
      then have "aparent v par (Fork l b k s r) = Some b" using lt by simp
      moreover have "add_loop (<) v i b h =
          Some ((h @ [new_node v i])[b := (h ! b)\<lparr>left := Some (length h)\<rparr>])"
        by (subst add_loop.simps) (simp add: kv lt None)
      ultimately show ?thesis unfolding c using kv lt None by (intro exI[of _ b]) simp
    next
      case (Some la)
      with l have "rep h (Some la) l" by simp
      from Fork.IH(1)[OF this f, of "Some b"] obtain p where p: "aparent v (Some b) l = Some p"
        "p \<in> set (addrs l)"
        and run: "if v < nvalue (h ! p)
         then left (h ! p) = None
           \<and> add_loop (<) v i la h =
               Some ((h @ [new_node v i])[p := (h ! p)\<lparr>left := Some (length h)\<rparr>])
         else right (h ! p) = None
           \<and> add_loop (<) v i la h =
               Some ((h @ [new_node v i])[p := (h ! p)\<lparr>right := Some (length h)\<rparr>])" by blast
      have step: "add_loop (<) v i b h = add_loop (<) v i la h"
        by (subst add_loop.simps) (simp add: kv lt Some)
      have "aparent v par (Fork l b k s r) = Some p" using lt p(1) by simp
      moreover have "p \<in> set (addrs (Fork l b k s r))" using p(2) by simp
      ultimately show ?thesis unfolding c step using run by blast
    qed
  next
    case gt
    with Fork.prems(2) have f: "afind v r = None" by simp
    show ?thesis
    proof (cases "right (h ! b)")
      case None
      with r have "r = Tip" by simp
      then have "aparent v par (Fork l b k s r) = Some b" using gt by simp
      moreover have "add_loop (<) v i b h =
          Some ((h @ [new_node v i])[b := (h ! b)\<lparr>right := Some (length h)\<rparr>])"
        by (subst add_loop.simps) (simp add: kv gt None)
      ultimately show ?thesis unfolding c using kv gt None by (intro exI[of _ b]) simp
    next
      case (Some ra)
      with r have "rep h (Some ra) r" by simp
      from Fork.IH(2)[OF this f, of "Some b"] obtain p where p: "aparent v (Some b) r = Some p"
        "p \<in> set (addrs r)"
        and run: "if v < nvalue (h ! p)
         then left (h ! p) = None
           \<and> add_loop (<) v i ra h =
               Some ((h @ [new_node v i])[p := (h ! p)\<lparr>left := Some (length h)\<rparr>])
         else right (h ! p) = None
           \<and> add_loop (<) v i ra h =
               Some ((h @ [new_node v i])[p := (h ! p)\<lparr>right := Some (length h)\<rparr>])" by blast
      have step: "add_loop (<) v i b h = add_loop (<) v i ra h"
        by (subst add_loop.simps) (simp add: kv gt Some)
      have "aparent v par (Fork l b k s r) = Some p" using gt p(1) by simp
      moreover have "p \<in> set (addrs (Fork l b k s r))" using p(2) by simp
      ultimately show ?thesis unfolding c step using run by blast
    qed
  qed
qed

lemma addrs_ains: "set (addrs (ains v i n sh)) \<subseteq> insert n (set (addrs sh))"
  by (induction sh) auto

lemma distinct_ains:
  "distinct (addrs sh) \<Longrightarrow> n \<notin> set (addrs sh) \<Longrightarrow> distinct (addrs (ains v i n sh))"
proof (induction sh)
  case Tip
  then show ?case by simp
next
  case (Fork l a k s r)
  have "set (addrs (ains v i n l)) \<subseteq> insert n (set (addrs l))"
    and "set (addrs (ains v i n r)) \<subseteq> insert n (set (addrs r))"
    by (rule addrs_ains)+
  with Fork show ?case by auto
qed

lemma keys_ains: "set (keys_of (ains v i n sh)) = insert v (set (keys_of sh))"
  by (induction sh) auto

lemma sorted_ains:
  "sorted_wrt (<) (keys_of sh) \<Longrightarrow> sorted_wrt (<) (keys_of (ains v i n sh))"
proof (induction sh)
  case Tip
  then show ?case by simp
next
  case (Fork l a k s r)
  then show ?case
    by (auto simp: sorted_wrt_append keys_ains)
qed

lemma nonempty_ains:
  "i \<noteq> ''__proto__'' \<Longrightarrow> {} \<notin> snd ` set (entries sh)
     \<Longrightarrow> {} \<notin> snd ` set (entries (ains v i n sh))"
  by (induction sh) (auto simp: assign_id_def)


lemma afind_ains: "afind v (ains v i n sh) \<noteq> None"
  by (induction sh) auto

lemma afind_ains_eq:
  "afind v (ains v i n sh) = Some (case afind v sh of None \<Rightarrow> n | Some a \<Rightarrow> a)"
  by (induction sh) auto

lemma aparent_ains: "aparent v par (ains v i n sh) = aparent v par sh"
  by (induction sh arbitrary: par) auto

lemma aget_ains:
  "aget k (ains v i n sh) = (if k = v then assign_id i (aget k sh) else aget k sh)"
  by (induction sh) auto

lemma aget_ains_new: "afind v sh = None \<Longrightarrow> aget v (ains v i n sh) = assign_id i {}"
  by (simp add: aget_ains afind_None_aget)

lemma add_rep:
  assumes "rep (heap t) (root t) sh" and "distinct (addrs sh)"
  shows "\<exists>t'. add (<) v i t = Some t'
           \<and> rep (heap t') (root t') (ains v i (length (heap t)) sh)
           \<and> distinct (addrs (ains v i (length (heap t)) sh))
           \<and> length (heap t') = (if afind v sh = None then Suc (length (heap t)) else length (heap t))"
proof -
  let ?n = "length (heap t)"
  have "?n \<notin> set (addrs sh)" using rep_bound[OF assms(1), of ?n] by auto
  then have d: "distinct (addrs (ains v i ?n sh))" using assms(2) by (rule distinct_ains[rotated])
  show ?thesis
  proof (cases "root t")
    case None
    with assms(1) have "sh = Tip" by simp
    then show ?thesis using None by (simp add: add_def new_node_def)
  next
    case (Some c)
    with assms(1) have "rep (heap t) (Some c) sh" by simp
    from add_loop_rep[OF this assms(2), of v i] d Some show ?thesis
      by (auto simp: add_def)
  qed
qed

lemma add_found:
  assumes "rep (heap t) (root t) sh" and "afind v sh = Some a"
  shows "add (<) v i t =
     Some (t\<lparr>heap := (heap t)[a := (heap t ! a)\<lparr>ids := assign_id i (ids (heap t ! a))\<rparr>]\<rparr>)"
proof -
  from assms obtain c where c: "root t = Some c" by (cases "root t") auto
  with assms(1) have "rep (heap t) (Some c) sh" by simp
  from add_loop_found[OF this assms(2), of i] c show ?thesis by (simp add: add_def)
qed

lemma relabel_cell:
  assumes "p < length h"
  shows "((h @ [x])[p := e])[length h := y] = (h @ [y])[p := e]"
  using assms by (simp add: list_eq_iff_nth_eq nth_list_update nth_append)

lemma add_fresh_other_id:
  assumes "rep (heap t) (root t) sh" and "afind v sh = None" and "add (<) v i t = Some t1"
  shows "heap t1 ! length (heap t) = new_node v i
     \<and> add (<) v j t = Some (t1\<lparr>heap := (heap t1)[length (heap t) := new_node v j]\<rparr>)"
proof (cases "root t")
  case None
  with assms(3) show ?thesis by (auto simp: add_def)
next
  case (Some c)
  let ?h = "heap t" and ?n = "length (heap t)"
  from assms(1) Some have rc: "rep ?h (Some c) sh" by simp
  from add_loop_new[OF rc assms(2), of None i] obtain p where ap: "aparent v None sh = Some p"
    and p: "p \<in> set (addrs sh)"
    and runi: "if v < nvalue (?h ! p)
         then add_loop (<) v i c ?h = Some ((?h @ [new_node v i])[p := (?h ! p)\<lparr>left := Some ?n\<rparr>])
         else add_loop (<) v i c ?h = Some ((?h @ [new_node v i])[p := (?h ! p)\<lparr>right := Some ?n\<rparr>])"
    by auto
  from add_loop_new[OF rc assms(2), of None j] ap
  have runj: "if v < nvalue (?h ! p)
         then add_loop (<) v j c ?h = Some ((?h @ [new_node v j])[p := (?h ! p)\<lparr>left := Some ?n\<rparr>])
         else add_loop (<) v j c ?h = Some ((?h @ [new_node v j])[p := (?h ! p)\<lparr>right := Some ?n\<rparr>])"
    by auto
  have pn: "p < ?n" using rep_bound[OF rc p] .
  show ?thesis
  proof (cases "v < nvalue (?h ! p)")
    case True
    with runi assms(3) Some
    have t1: "t1 = t\<lparr>heap := (?h @ [new_node v i])[p := (?h ! p)\<lparr>left := Some ?n\<rparr>]\<rparr>"
      by (simp add: add_def)
    have "add (<) v j t = Some (t\<lparr>heap := (?h @ [new_node v j])[p := (?h ! p)\<lparr>left := Some ?n\<rparr>]\<rparr>)"
      using True runj Some by (simp add: add_def)
    then show ?thesis unfolding t1 using pn by (simp add: relabel_cell)
  next
    case False
    with runi assms(3) Some
    have t1: "t1 = t\<lparr>heap := (?h @ [new_node v i])[p := (?h ! p)\<lparr>right := Some ?n\<rparr>]\<rparr>"
      by (simp add: add_def)
    have "add (<) v j t = Some (t\<lparr>heap := (?h @ [new_node v j])[p := (?h ! p)\<lparr>right := Some ?n\<rparr>]\<rparr>)"
      using False runj Some by (simp add: add_def)
    then show ?thesis unfolding t1 using pn by (simp add: relabel_cell)
  qed
qed

lemma valid_tree_shaped: "valid t \<Longrightarrow> tree_shaped t"
  by (auto simp: valid_def tree_shaped_def)

lemma valid_empty: "valid BinarySearchTree"
  unfolding valid_def BinarySearchTree_def by (intro exI[of _ Tip]) simp

lemma add_valid:
  assumes "valid t" and "i \<noteq> ''__proto__''"
  shows "\<exists>t'. add (<) v i t = Some t' \<and> valid t'"
proof -
  from assms obtain sh where sh: "rep (heap t) (root t) sh" "distinct (addrs sh)"
    "sorted_wrt (<) (keys_of sh)" "{} \<notin> snd ` set (entries sh)"
    unfolding valid_def by blast
  from add_rep[OF sh(1,2), of v i] obtain t' where t': "add (<) v i t = Some t'"
    "rep (heap t') (root t') (ains v i (length (heap t)) sh)"
    "distinct (addrs (ains v i (length (heap t)) sh))" by blast
  have "valid t'"
    unfolding valid_def
    using t'(2,3) sorted_ains[OF sh(3)] nonempty_ains[OF assms(2) sh(4)] by blast
  with t'(1) show ?thesis by blast
qed

lemma adds_valid:
  "valid t \<Longrightarrow> ''__proto__'' \<notin> snd ` set ops \<Longrightarrow> \<exists>t'. adds (<) ops t = Some t' \<and> valid t'"
proof (induction ops arbitrary: t)
  case Nil
  then show ?case by simp
next
  case (Cons op ops)
  obtain v i where op: "op = (v, i)" by (cases op)
  with Cons.prems(2) have i: "i \<noteq> ''__proto__''" and rest: "''__proto__'' \<notin> snd ` set ops"
    by auto
  from add_valid[OF Cons.prems(1) i, of v] obtain t1 where t1: "add (<) v i t = Some t1" "valid t1"
    by blast
  from Cons.IH[OF t1(2) rest] t1(1) op show ?case by simp
qed

lemma ids_added_Nil [simp]: "ids_added [] k = {}"
  by (simp add: ids_added_def)

lemma ids_added_Cons:
  "ids_added ((v, i) # ops) k = (if v = k then assign_id i {} else {}) \<union> ids_added ops k"
  by (auto simp: ids_added_def assign_id_def)


text \<open>
  What a sequence of \<^verbatim>\<open>add\<close> calls makes of a search tree: the keys are the old keys
  and the keys added, and the id set of each key has grown by the ids added under it.
\<close>

lemma adds_shape:
  assumes "rep (heap t) (root t) sh" and "distinct (addrs sh)" and "sorted_wrt (<) (keys_of sh)"
  shows "\<exists>t' sh'. adds (<) ops t = Some t' \<and> rep (heap t') (root t') sh'
     \<and> distinct (addrs sh') \<and> sorted_wrt (<) (keys_of sh')
     \<and> set (keys_of sh') = set (keys_of sh) \<union> fst ` set ops
     \<and> (\<forall>k. aget k sh' = aget k sh \<union> ids_added ops k)"
  using assms
proof (induction ops arbitrary: t sh)
  case Nil
  then show ?case by auto
next
  case (Cons op ops)
  obtain v i where op: "op = (v, i)" by (cases op)
  let ?sh1 = "ains v i (length (heap t)) sh"
  from add_rep[OF Cons.prems(1,2), of v i] obtain t1 where t1: "add (<) v i t = Some t1"
    and rep1: "rep (heap t1) (root t1) ?sh1" and d1: "distinct (addrs ?sh1)" by blast
  have s1: "sorted_wrt (<) (keys_of ?sh1)" using Cons.prems(3) by (rule sorted_ains)
  from Cons.IH[OF rep1 d1 s1] obtain t' sh' where t': "adds (<) ops t1 = Some t'"
    and rep': "rep (heap t') (root t') sh'" and d': "distinct (addrs sh')"
    and s': "sorted_wrt (<) (keys_of sh')"
    and k': "set (keys_of sh') = set (keys_of ?sh1) \<union> fst ` set ops"
    and a': "\<forall>k. aget k sh' = aget k ?sh1 \<union> ids_added ops k" by blast
  have run: "adds (<) (op # ops) t = Some t'" using op t1 t' by simp
  have keys: "set (keys_of sh') = set (keys_of sh) \<union> fst ` set (op # ops)"
    using k' op by (simp add: keys_ains)
  have "aget k sh' = aget k sh \<union> ids_added (op # ops) k" for k
  proof -
    have "aget k ?sh1 = aget k sh \<union> (if v = k then assign_id i {} else {})"
      using assign_id_Un[of i "aget k sh"] by (auto simp: aget_ains)
    with a' show ?thesis unfolding op ids_added_Cons by auto
  qed
  with run rep' d' s' keys show ?case by blast
qed

subsection \<open>remove\<close>

lemma remove_keep:
  assumes "rep (heap t) (root t) sh" and "afind v sh = Some a"
    and "ids (heap t ! a) - {i} \<noteq> {}"
  shows "remove (<) v i t =
     Some (Inr (t\<lparr>heap := (heap t)[a := (heap t ! a)\<lparr>ids := ids (heap t ! a) - {i}\<rparr>]\<rparr>))"
proof -
  have a: "a < length (heap t)"
    using rep_bound[OF assms(1) afind_addr[OF assms(2)]] .
  have "remove_search (<) v None (root t) (heap t) = Some (aparent v None sh, Some a)"
    using remove_search_rep[OF assms(1), of v None] assms(2) by simp
  then show ?thesis using assms(3) a by (simp add: remove_def)
qed

lemma map_field_ids_update:
  "map nvalue (h[a := (h ! a)\<lparr>ids := X\<rparr>]) = map nvalue h"
  "map left (h[a := (h ! a)\<lparr>ids := X\<rparr>]) = map left h"
  "map right (h[a := (h ! a)\<lparr>ids := X\<rparr>]) = map right h"
  by (cases "a < length h"; simp add: list_eq_iff_nth_eq nth_list_update)+

lemma garbage_cell:
  assumes "p < length h"
  shows "(((h @ [x])[p := e])[length h := g])[p := h ! p] = h @ [g]"
  using assms by (simp add: list_eq_iff_nth_eq nth_list_update nth_append)

lemma remove_fresh_leaf:
  assumes "rep (heap t) (root t) sh" and "distinct (addrs sh)" and "afind v sh = None"
  shows "\<exists>t'. add (<) v j t = Some t'
     \<and> remove (<) v j t' =
         Some (Inr (t\<lparr>heap := heap t @ [\<lparr>nvalue = v, left = None, right = None, ids = {}\<rparr>]\<rparr>))"
proof (cases "root t")
  case None
  then show ?thesis
    by (simp add: add_def remove_def remove_search.simps new_node_def remove_root_def
        childCount_def)
next
  case (Some c)
  let ?h = "heap t" and ?n = "length (heap t)"
  let ?g = "\<lparr>nvalue = v, left = None, right = None, ids = {}\<rparr>"
  from assms(1) Some have rc: "rep ?h (Some c) sh" by simp
  from add_loop_rep[OF rc assms(2), of v j] obtain h1 where h1: "add_loop (<) v j c ?h = Some h1"
    and rep1: "rep h1 (Some c) (ains v j ?n sh)" by blast
  from add_loop_new[OF rc assms(3), of None j] h1 obtain p where p: "aparent v None sh = Some p"
    "p \<in> set (addrs sh)"
    and run: "if v < nvalue (?h ! p)
         then left (?h ! p) = None \<and> h1 = (?h @ [new_node v j])[p := (?h ! p)\<lparr>left := Some ?n\<rparr>]
         else right (?h ! p) = None \<and> h1 = (?h @ [new_node v j])[p := (?h ! p)\<lparr>right := Some ?n\<rparr>]"
    by (auto split: if_splits)
  have pn: "p < ?n" using rep_bound[OF rc p(2)] .
  have cn: "c < ?n" using rc by (cases sh) auto
  have t': "add (<) v j t = Some (t\<lparr>heap := h1\<rparr>)" using Some h1 by (simp add: add_def)
  have search: "remove_search (<) v None (Some c) h1 = Some (Some p, Some ?n)"
    using remove_search_rep[OF rep1, of v None] assms(3) p(1)
    by (simp add: afind_ains_eq aparent_ains)
  have h1n: "h1 ! ?n = new_node v j" using run pn by (auto split: if_splits)
  have len1: "length h1 = Suc ?n" using run by (auto split: if_splits)
  let ?h2 = "h1[?n := ?g]"
  have final: "(if v < nvalue (?h2 ! p) then set_left p None ?h2 else set_right p None ?h2)
      = ?h @ [?g]"
  proof (cases "v < nvalue (?h ! p)")
    case True
    with run have l: "left (?h ! p) = None"
      and e: "h1 = (?h @ [new_node v j])[p := (?h ! p)\<lparr>left := Some ?n\<rparr>]" by auto
    have "?h2 ! p = (?h ! p)\<lparr>left := Some ?n\<rparr>" using pn e by (simp add: nth_append)
    moreover from this l have "(?h2 ! p)\<lparr>left := None\<rparr> = ?h ! p" by simp
    ultimately show ?thesis using True pn e garbage_cell[OF pn] by (simp add: set_left_def)
  next
    case False
    with run have l: "right (?h ! p) = None"
      and e: "h1 = (?h @ [new_node v j])[p := (?h ! p)\<lparr>right := Some ?n\<rparr>]" by auto
    have "?h2 ! p = (?h ! p)\<lparr>right := Some ?n\<rparr>" using pn e by (simp add: nth_append)
    moreover from this l have "(?h2 ! p)\<lparr>right := None\<rparr> = ?h ! p" by simp
    ultimately show ?thesis using False pn e garbage_cell[OF pn] by (simp add: set_right_def)
  qed
  have "remove (<) v j (t\<lparr>heap := h1\<rparr>) = Some (Inr (t\<lparr>heap := ?h @ [?g]\<rparr>))"
    using search Some h1n len1 cn final
    by (simp add: remove_def new_node_def remove_inner_def childCount_def link_parent_def)
  with t' show ?thesis by blast
qed

section \<open>Insertion\<close>


lemma example_tree_valid: "valid example_tree"
  unfolding valid_def example_tree_def
  by (intro exI[of _ "Fork (Fork Tip 1 1 {''4''} Tip) 0 2 {''1''} Tip"]) simp



text \<open>
  C5. On every tree-shaped store, for every key and id, \<^verbatim>\<open>add(k, i)\<close> returns, and a
  second \<^verbatim>\<open>add(k, i)\<close> right after it returns the very same tree: root, objects, links
  and id sets are all as the first call left them.
\<close>

theorem add_idempotent:
  assumes "tree_shaped t"
  shows "\<exists>t'. add (<) (v::'k::linorder) i t = Some t' \<and> add (<) v i t' = Some t'"
proof -
  from assms obtain sh where sh: "rep (heap t) (root t) sh" "distinct (addrs sh)"
    unfolding tree_shaped_def by blast
  let ?sh' = "ains v i (length (heap t)) sh"
  from add_rep[OF sh, of v i] obtain t' where t': "add (<) v i t = Some t'"
    and rep': "rep (heap t') (root t') ?sh'" by blast
  obtain a where a: "afind v ?sh' = Some a" using afind_ains[of v i _ sh] by blast
  have "ids (heap t' ! a) = assign_id i (aget v sh)"
    using afind_aget[OF rep' a] by (simp add: aget_ains)
  then have "(heap t' ! a)\<lparr>ids := assign_id i (ids (heap t' ! a))\<rparr> = heap t' ! a"
    by simp
  with add_found[OF rep' a, of i] have "add (<) v i t' = Some t'" by simp
  with t' show ?thesis by blast
qed

theorem add_idempotent_witness:
  "tree_shaped example_tree
   \<and> (\<exists>t'. add (<) 3 ''7'' example_tree = Some t' \<and> add (<) 3 ''7'' t' = Some t')"
proof -
  have ts: "tree_shaped example_tree" using example_tree_valid by (rule valid_tree_shaped)
  from add_idempotent[OF ts, of 3 "''7''"] ts show ?thesis by simp
qed

text \<open>
  The round trip of an id that the assignment stores: on every tree reached from the
  empty tree by \<^verbatim>\<open>add\<close> calls, after \<^verbatim>\<open>add(k, i)\<close> with an id other than
  \<^verbatim>\<open>"__proto__"\<close>, \<^verbatim>\<open>equals(k)\<close> contains \<open>i\<close> and \<^verbatim>\<open>contains(k)\<close> is true. For
  \<^verbatim>\<open>"__proto__"\<close> too, \<^verbatim>\<open>add\<close> returns and \<^verbatim>\<open>contains(k)\<close> is true afterwards.
\<close>

lemma add_then_lookup_stored:
  "\<exists>t t' S. adds (<) ops BinarySearchTree = Some t \<and> add (<) (k::'k::linorder) i t = Some t'
     \<and> equals (<) k t' = Some S \<and> (i \<noteq> ''__proto__'' \<longrightarrow> i \<in> S)
     \<and> contains (<) k t' = Some True"
proof -
  have "rep (heap BinarySearchTree) (root BinarySearchTree) (Tip :: 'k shape)"
    by (simp add: BinarySearchTree_def)
  from adds_shape[OF this, of ops] obtain t sh
    where t: "adds (<) ops BinarySearchTree = Some t"
      and sh: "rep (heap t) (root t) sh" "distinct (addrs sh)"
    by auto
  let ?sh' = "ains k i (length (heap t)) sh"
  from add_rep[OF sh, of k i] obtain t' where t': "add (<) k i t = Some t'"
    and rep': "rep (heap t') (root t') ?sh'" by blast
  have "equals (<) k t' = Some (aget k ?sh')" using rep' by (rule equals_rep)
  moreover have "i \<noteq> ''__proto__'' \<longrightarrow> i \<in> aget k ?sh'"
    by (simp add: aget_ains assign_id_def)
  moreover have "contains (<) k t' = Some True"
    using contains_rep[OF rep', of k] afind_ains[of k i _ sh] by simp
  ultimately show ?thesis using t t' by blast
qed

text \<open>
  C6. What the code does where the claim fails. \<^verbatim>\<open>add(5, "__proto__")\<close> on the empty
  tree makes the node of key 5, and the assignment \<^verbatim>\<open>node.ids[id] = true\<close> stores
  nothing: \<^verbatim>\<open>contains(5)\<close> is true, and \<^verbatim>\<open>equals(5)\<close> is the empty set, which does not
  contain the id that was added. The same holds of a key that has an id already: after
  \<^verbatim>\<open>add(5, "1")\<close> and \<^verbatim>\<open>add(5, "__proto__")\<close>, \<^verbatim>\<open>equals(5)\<close> is the set of
  \<^verbatim>\<open>"1"\<close> alone.
\<close>

theorem add_proto_id_not_stored_example:
  "add (<) (5::int) ''__proto__'' BinarySearchTree =
     Some \<lparr>root = Some 0, heap = [\<lparr>nvalue = 5, left = None, right = None, ids = {}\<rparr>]\<rparr>
   \<and> contains (<) (5::int) \<lparr>root = Some 0, heap = [\<lparr>nvalue = 5, left = None, right = None, ids = {}\<rparr>]\<rparr>
       = Some True
   \<and> equals (<) (5::int) \<lparr>root = Some 0, heap = [\<lparr>nvalue = 5, left = None, right = None, ids = {}\<rparr>]\<rparr>
       = Some {}
   \<and> Option.bind (adds (<) [(5::int, ''1''), (5, ''__proto__'')] BinarySearchTree) (equals (<) 5)
       = Some {''1''}"
  by (simp add: bst_eval assign_id_def)

section \<open>Removal that leaves the shape of the tree alone\<close>



text \<open>
  Shrinking and then removing, where the key is new to the tree. Let \<open>K\<close> be a key that a
  valid tree does not contain, and \<open>i\<close>, \<open>j\<close> two different ids that the assignment
  stores. After \<^verbatim>\<open>add(K, i)\<close> and \<^verbatim>\<open>add(K, j)\<close>, \<^verbatim>\<open>remove(K, i)\<close> returns normally,
  \<^verbatim>\<open>contains(K)\<close> is still true, \<^verbatim>\<open>equals(K)\<close> is exactly \<open>{j}\<close>, and the structure
  is unchanged: the same root, and every object has the key and the children it had. A
  following \<^verbatim>\<open>remove(K, j)\<close> returns normally, after which \<^verbatim>\<open>contains(K)\<close> is false
  and \<^verbatim>\<open>toArray\<close> is what it was before \<open>K\<close> was added, with no entry for \<open>K\<close>. The
  node of \<open>K\<close> is a leaf throughout.
\<close>

lemma shrink_then_remove_leaf:
  assumes "valid t" and "contains (<) (K::'k::linorder) t = Some False" and "i \<noteq> j"
    and "i \<noteq> ''__proto__''" and "j \<noteq> ''__proto__''"
  shows "\<exists>t1 t2 t3 t4.
       add (<) K i t = Some t1 \<and> add (<) K j t1 = Some t2
     \<and> remove (<) K i t2 = Some (Inr t3)
     \<and> contains (<) K t3 = Some True \<and> equals (<) K t3 = Some {j}
     \<and> root t3 = root t2 \<and> map nvalue (heap t3) = map nvalue (heap t2)
     \<and> map left (heap t3) = map left (heap t2) \<and> map right (heap t3) = map right (heap t2)
     \<and> remove (<) K j t3 = Some (Inr t4)
     \<and> contains (<) K t4 = Some False
     \<and> toArray t4 = toArray t
     \<and> (\<exists>ys. toArray t4 = Some ys \<and> K \<notin> fst ` set ys)"
proof -
  from assms(1) obtain sh where sh: "rep (heap t) (root t) sh" "distinct (addrs sh)"
    and so: "sorted_wrt (<) (keys_of sh)"
    unfolding valid_def by blast
  have absent: "afind K sh = None" using contains_rep[OF sh(1), of K] assms(2) by simp
  let ?n = "length (heap t)"
  let ?sh1 = "ains K i ?n sh"
  \<comment> \<open>the first add\<close>
  from add_rep[OF sh, of K i] obtain t1 where t1: "add (<) K i t = Some t1"
    and rep1: "rep (heap t1) (root t1) ?sh1" and d1: "distinct (addrs ?sh1)"
    and len1: "length (heap t1) = Suc ?n" using absent by auto
  have f1: "afind K ?sh1 = Some ?n" using absent by (simp add: afind_ains_eq)
  from add_fresh_other_id[OF sh(1) absent t1, of j]
  have cell1: "heap t1 ! ?n = new_node K i"
    and tj: "add (<) K j t = Some (t1\<lparr>heap := (heap t1)[?n := new_node K j]\<rparr>)" by simp_all
  \<comment> \<open>the second add\<close>
  define t2 where
    "t2 = t1\<lparr>heap := (heap t1)[?n := (heap t1 ! ?n)\<lparr>ids := assign_id j (ids (heap t1 ! ?n))\<rparr>]\<rparr>"
  have t2: "add (<) K j t1 = Some t2" unfolding t2_def using rep1 f1 by (rule add_found)
  from add_rep[OF rep1 d1, of K j] t2
  have rep2: "rep (heap t2) (root t2) (ains K j (length (heap t1)) ?sh1)" by simp
  have f2: "afind K (ains K j (length (heap t1)) ?sh1) = Some ?n"
    using f1 by (simp add: afind_ains_eq)
  have cell2: "heap t2 ! ?n = \<lparr>nvalue = K, left = None, right = None, ids = {j, i}\<rparr>"
    unfolding t2_def using cell1 len1 assms(4,5) by (simp add: new_node_def assign_id_def)
  \<comment> \<open>the first remove\<close>
  define t3 where
    "t3 = t2\<lparr>heap := (heap t2)[?n := (heap t2 ! ?n)\<lparr>ids := ids (heap t2 ! ?n) - {i}\<rparr>]\<rparr>"
  have ji: "{j, i} - {i} = {j}" using assms(3) by auto
  then have "ids (heap t2 ! ?n) - {i} \<noteq> {}" using cell2 by simp
  with rep2 f2 have t3: "remove (<) K i t2 = Some (Inr t3)" unfolding t3_def by (rule remove_keep)
  have t3_eq: "t3 = t1\<lparr>heap := (heap t1)[?n := new_node K j]\<rparr>"
    unfolding t3_def using cell2 ji assms(5) by (simp add: new_node_def t2_def assign_id_def)
  have struct: "root t3 = root t2" "map nvalue (heap t3) = map nvalue (heap t2)"
    "map left (heap t3) = map left (heap t2)" "map right (heap t3) = map right (heap t2)"
    unfolding t3_def using map_field_ids_update[of "heap t2" ?n] by simp_all
  from add_rep[OF sh, of K j] tj t3_eq
  have rep3: "rep (heap t3) (root t3) (ains K j ?n sh)" by simp
  have c3: "contains (<) K t3 = Some True"
    using contains_rep[OF rep3, of K] by (simp add: afind_ains_eq)
  have e3: "equals (<) K t3 = Some {j}"
    using equals_rep[OF rep3, of K] absent assms(5) by (simp add: aget_ains_new assign_id_def)
  \<comment> \<open>the second remove\<close>
  define t4 where
    "t4 = t\<lparr>heap := heap t @ [\<lparr>nvalue = K, left = None, right = None, ids = {}\<rparr>]\<rparr>"
  from remove_fresh_leaf[OF sh absent, of j] tj t3_eq
  have t4: "remove (<) K j t3 = Some (Inr t4)" unfolding t4_def by simp
  have "rep (heap t @ [\<lparr>nvalue = K, left = None, right = None, ids = {}\<rparr>]) (root t) sh"
    using sh(1) by (rule rep_cong) (use rep_bound[OF sh(1)] in \<open>simp_all add: nth_append\<close>)
  then have rep4: "rep (heap t4) (root t4) sh" unfolding t4_def by simp
  have c4: "contains (<) K t4 = Some False" using contains_rep[OF rep4, of K] absent by simp
  have a4: "toArray t4 = Some (entries sh)" using rep4 by (rule toArray_rep)
  have a0: "toArray t = Some (entries sh)" using sh(1) by (rule toArray_rep)
  have "K \<notin> set (keys_of sh)" using afind_sorted[OF so, of K] absent by blast
  then have k4: "K \<notin> fst ` set (entries sh)" by (simp add: keys_of_def)
  from a4 k4 have ex: "\<exists>ys. toArray t4 = Some ys \<and> K \<notin> fst ` set ys" by blast
  from a4 a0 have same: "toArray t4 = toArray t" by simp
  show ?thesis
    using t1 t2 t3 c3 e3 struct t4 c4 same ex
    by (intro exI[of _ t1] exI[of _ t2] exI[of _ t3] exI[of _ t4] conjI)
qed

text \<open>
  C7. What the code does where the claim fails. Key 5 is added with id 1 and gets the
  children 3 and 8, then id 3 is added under key 5. \<^verbatim>\<open>remove(5, "1")\<close> returns normally
  and leaves \<^verbatim>\<open>contains(5)\<close> true and \<^verbatim>\<open>equals(5)\<close> the set of \<^verbatim>\<open>"3"\<close> alone, with the
  root and all keys and links as they were. The following \<^verbatim>\<open>remove(5, "3")\<close> empties the
  id set of the root, which has two children and whose left child 3 has no right child:
  the call throws the TypeError of C2 and key 5 stays in the tree. The same happens when
  the two ids are added first and the children afterwards.
\<close>

theorem shrink_then_remove_two_children_example:
  "\<exists>t t1. adds (<) [(5::int, ''1''), (3, ''2''), (8, ''4''), (5, ''3'')] BinarySearchTree = Some t
     \<and> t = \<lparr>root = Some 0, heap =
           [\<lparr>nvalue = 5, left = Some 1, right = Some 2, ids = {''3'', ''1''}\<rparr>,
            \<lparr>nvalue = 3, left = None, right = None, ids = {''2''}\<rparr>,
            \<lparr>nvalue = 8, left = None, right = None, ids = {''4''}\<rparr>]\<rparr>
     \<and> remove (<) 5 ''1'' t = Some (Inr t1)
     \<and> t1 = \<lparr>root = Some 0, heap =
           [\<lparr>nvalue = 5, left = Some 1, right = Some 2, ids = {''3''}\<rparr>,
            \<lparr>nvalue = 3, left = None, right = None, ids = {''2''}\<rparr>,
            \<lparr>nvalue = 8, left = None, right = None, ids = {''4''}\<rparr>]\<rparr>
     \<and> contains (<) 5 t1 = Some True \<and> equals (<) 5 t1 = Some {''3''}
     \<and> remove (<) 5 ''3'' t1 = Some (Inl TypeError)
     \<and> adds (<) [(5::int, ''1''), (5, ''3''), (3, ''2''), (8, ''4'')] BinarySearchTree = Some t"
  by (simp add: bst_eval assign_id_def insert_commute)

section \<open>Removal of a node with two children\<close>

text \<open>
  C3. The tree built by adding the keys 5, 2, 1, 4, 3, 8, 7, 9 (each with one id, whatever
  the ids are) has root 5, left subtree \<open>{2, 1, 4, 3}\<close> and right subtree \<open>{8, 7, 9}\<close>.
  Removing key 5 with its id returns normally; the keys of \<^verbatim>\<open>toArray\<close> are then exactly
  1, 2, 3, 4, 7, 8, 9 in this order, \<^verbatim>\<open>contains\<close> is true for each of these seven keys
  and false for 5.
\<close>

theorem remove_root_two_children_example:
  "\<exists>t t'. adds (<) [(5::int, i5), (2, i2), (1, i1), (4, i4), (3, i3), (8, i8), (7, i7), (9, i9)]
            BinarySearchTree = Some t
     \<and> remove (<) 5 i5 t = Some (Inr t')
     \<and> map_option (map fst) (toArray t') = Some [1, 2, 3, 4, 7, 8, 9]
     \<and> contains (<) 1 t' = Some True \<and> contains (<) 2 t' = Some True
     \<and> contains (<) 3 t' = Some True \<and> contains (<) 4 t' = Some True
     \<and> contains (<) 7 t' = Some True \<and> contains (<) 8 t' = Some True
     \<and> contains (<) 9 t' = Some True
     \<and> contains (<) 5 t' = Some False"
  by (simp add: bst_eval)

text \<open>
  C1. What the code does where the claim fails. The keys 10, 5, 3, 7 are added with the
  ids 1, 2, 3, 4: node 5 (at index 1) is not the root and has the two children 3 (index 2)
  and 7 (index 3), and its left child 3 has no right child. \<^verbatim>\<open>remove(5, "2")\<close> runs the
  relink \<^verbatim>\<open>replacementParent.right = replacement.left\<close> with \<^verbatim>\<open>replacementParent\<close>
  being the removed node itself, which overwrites the removed node's right child before
  it is read: in the result node 3 is its own left child, its right child is null, and
  node 7 is no longer reachable. \<^verbatim>\<open>contains(7)\<close> is false afterwards, and \<^verbatim>\<open>toArray\<close>
  does not return.
\<close>

theorem remove_inner_direct_left_child_example:
  "\<exists>t t'. adds (<) [(10::int, ''1''), (5, ''2''), (3, ''3''), (7, ''4'')] BinarySearchTree = Some t
     \<and> t = \<lparr>root = Some 0, heap =
           [\<lparr>nvalue = 10, left = Some 1, right = None, ids = {''1''}\<rparr>,
            \<lparr>nvalue = 5, left = Some 2, right = Some 3, ids = {''2''}\<rparr>,
            \<lparr>nvalue = 3, left = None, right = None, ids = {''3''}\<rparr>,
            \<lparr>nvalue = 7, left = None, right = None, ids = {''4''}\<rparr>]\<rparr>
     \<and> remove (<) 5 ''2'' t = Some (Inr t')
     \<and> t' = \<lparr>root = Some 0, heap =
           [\<lparr>nvalue = 10, left = Some 2, right = None, ids = {''1''}\<rparr>,
            \<lparr>nvalue = 5, left = Some 2, right = None, ids = {}\<rparr>,
            \<lparr>nvalue = 3, left = Some 2, right = None, ids = {''3''}\<rparr>,
            \<lparr>nvalue = 7, left = None, right = None, ids = {''4''}\<rparr>]\<rparr>
     \<and> contains (<) 7 t' = Some False
     \<and> toArray t' = None"
proof -
  let ?t = "\<lparr>root = Some 0, heap =
           [\<lparr>nvalue = 10::int, left = Some 1, right = None, ids = {''1''}\<rparr>,
            \<lparr>nvalue = 5, left = Some 2, right = Some 3, ids = {''2''}\<rparr>,
            \<lparr>nvalue = 3, left = None, right = None, ids = {''3''}\<rparr>,
            \<lparr>nvalue = 7, left = None, right = None, ids = {''4''}\<rparr>]\<rparr>"
  let ?t' = "\<lparr>root = Some 0, heap =
           [\<lparr>nvalue = 10::int, left = Some 2, right = None, ids = {''1''}\<rparr>,
            \<lparr>nvalue = 5, left = Some 2, right = None, ids = {}\<rparr>,
            \<lparr>nvalue = 3, left = Some 2, right = None, ids = {''3''}\<rparr>,
            \<lparr>nvalue = 7, left = None, right = None, ids = {''4''}\<rparr>]\<rparr>"
  have built: "adds (<) [(10::int, ''1''), (5, ''2''), (3, ''3''), (7, ''4'')] BinarySearchTree = Some ?t"
    by (simp add: bst_eval assign_id_def)
  have removed: "remove (<) 5 ''2'' ?t = Some (Inr ?t')"
    by (simp add: bst_eval assign_id_def)
  have lost: "contains (<) 7 ?t' = Some False"
    by (simp add: bst_eval assign_id_def)
  have "inOrder (heap ?t') (Some 2) = None"
    by (rule self_left_inOrder) simp
  then have stuck: "toArray ?t' = None"
    unfolding toArray_def by (subst inOrder.simps) simp
  from built removed lost stuck show ?thesis by blast
qed

text \<open>
  C2. What the code does where the claim fails. The keys 5, 3, 8 are added with the ids
  1, 2, 3: the root 5 has two children and its left child 3 has no right child.
  \<^verbatim>\<open>remove(5, "1")\<close> leaves the loop with \<^verbatim>\<open>replacementParent\<close> never assigned; the
  test \<^verbatim>\<open>replacementParent !== null\<close> is true of \<^verbatim>\<open>undefined\<close>, and the assignment
  to \<^verbatim>\<open>replacementParent.right\<close> throws a TypeError.
\<close>

theorem remove_root_direct_left_child_example:
  "Option.bind (adds (<) [(5::int, ''1''), (3, ''2''), (8, ''3'')] BinarySearchTree)
     (remove (<) 5 ''1'')
     = Some (Inl TypeError)"
  by (simp add: bst_eval assign_id_def)

text \<open>
  C10. What the code does where the claim fails. After the removal of C1's example, node 3
  is its own left child. \<^verbatim>\<open>remove(3, "3")\<close> empties its id set, counts one child and
  links the parent to that child, which is node 3 itself: the node stays in the tree with
  no id, \<^verbatim>\<open>contains(3)\<close> is true and \<^verbatim>\<open>equals(3)\<close> is the empty set.
\<close>

theorem contains_without_ids_example:
  "\<exists>t t1 t2. adds (<) [(10::int, ''1''), (5, ''2''), (3, ''3''), (7, ''4'')] BinarySearchTree = Some t
     \<and> remove (<) 5 ''2'' t = Some (Inr t1)
     \<and> remove (<) 3 ''3'' t1 = Some (Inr t2)
     \<and> contains (<) 3 t2 = Some True
     \<and> equals (<) 3 t2 = Some {}"
  by (simp add: bst_eval assign_id_def)

section \<open>Keys that are neither less nor greater\<close>

text \<open>
  C9, as stated, fails: \<^verbatim>\<open>NaN\<close> and 1 do not compare (neither is less than the other,
  and they are not equal), and \<^verbatim>\<open>add(NaN, "2")\<close> on the tree that holds key 1 with id 1
  returns normally, with id 2 filed under key 1.
\<close>

theorem incomparable_keys_counterexample:
  "\<not> js_lt NaN (Num 1) \<and> \<not> js_lt (Num 1) NaN \<and> NaN \<noteq> Num 1 \<and>
   Option.bind (add js_lt (Num 1) ''1'' BinarySearchTree) (add js_lt NaN ''2'') =
     Some \<lparr>root = Some 0,
           heap = [\<lparr>nvalue = Num 1, left = None, right = None, ids = {''1'', ''2''}\<rparr>]\<rparr>"
  by (simp add: bst_eval assign_id_def insert_commute)

text \<open>
  C9, amended. No operation signals an error for keys that do not compare: where the key
  is neither less nor greater than the key of the node a loop is at, the loop takes its
  last branch, the one of equal keys. \<^verbatim>\<open>add\<close> makes the assignment
  \<^verbatim>\<open>current.ids[id] = true\<close> on that node (which puts the id into the node's id set,
  unless the id is \<^verbatim>\<open>"__proto__"\<close>, which the assignment does not store) and returns,
  and the search loops of \<^verbatim>\<open>contains\<close>, \<^verbatim>\<open>equals\<close> and \<^verbatim>\<open>remove\<close> return
  that node as the one found. At the root this is what the operations themselves do:
  \<^verbatim>\<open>add\<close> returns the tree with that one id set changed, \<^verbatim>\<open>contains\<close> returns true
  and \<^verbatim>\<open>equals\<close> returns the id set of the root.
\<close>

theorem incomparable_treated_as_equal:
  assumes "\<not> lt v (nvalue (h ! current))" and "\<not> lt (nvalue (h ! current)) v"
  shows "add_loop lt v i current h =
           Some (h[current := (h ! current)\<lparr>ids := assign_id i (ids (h ! current))\<rparr>])
     \<and> find_loop lt v (Some current) h = Some (Some current)
     \<and> remove_search lt v parent (Some current) h = Some (parent, Some current)
     \<and> add lt v i \<lparr>root = Some current, heap = h\<rparr> =
           Some \<lparr>root = Some current,
                 heap = h[current := (h ! current)\<lparr>ids := assign_id i (ids (h ! current))\<rparr>]\<rparr>
     \<and> contains lt v \<lparr>root = Some current, heap = h\<rparr> = Some True
     \<and> equals lt v \<lparr>root = Some current, heap = h\<rparr> = Some (ids (h ! current))"
  using assms
  by (simp add: add_loop.simps find_loop.simps remove_search.simps add_def contains_def
      equals_def)

theorem incomparable_treated_as_equal_witness:
  "\<not> js_lt NaN (nvalue ([new_node (Num 1) ''1''] ! 0))
   \<and> \<not> js_lt (nvalue ([new_node (Num 1) ''1''] ! 0)) NaN
   \<and> add_loop js_lt NaN ''2'' 0 [new_node (Num 1) ''1''] =
       Some [\<lparr>nvalue = Num 1, left = None, right = None, ids = {''2'', ''1''}\<rparr>]
   \<and> find_loop js_lt NaN (Some 0) [new_node (Num 1) ''1''] = Some (Some 0)
   \<and> remove_search js_lt NaN None (Some 0) [new_node (Num 1) ''1''] = Some (None, Some 0)
   \<and> add js_lt NaN ''2'' \<lparr>root = Some 0, heap = [new_node (Num 1) ''1'']\<rparr> =
       Some \<lparr>root = Some 0,
             heap = [\<lparr>nvalue = Num 1, left = None, right = None, ids = {''2'', ''1''}\<rparr>]\<rparr>
   \<and> contains js_lt NaN \<lparr>root = Some 0, heap = [new_node (Num 1) ''1'']\<rparr> = Some True
   \<and> equals js_lt NaN \<lparr>root = Some 0, heap = [new_node (Num 1) ''1'']\<rparr> = Some {''1''}"
  using incomparable_treated_as_equal [of js_lt NaN "[new_node (Num 1) ''1'']" 0 "''2''" None]
  by (simp add: new_node_def assign_id_def)

end
